theory Spec2Isabelle
  imports Main "HOL-Library.Word" "HOL-Library.Multiset"
begin

unbundle bit_operations_syntax

section \<open>Card codec and hand evaluator of \<open>poker.cards\<close>\<close>

text \<open>
  The development embeds \<^verbatim>\<open>src/javascript/common/cards.js\<close>.  JavaScript numbers that the
  code handles are integers: card codes, base-53 composite codes of at most seven cards
  (below \<open>53 ^ 7 < 2 ^ 53\<close>, so every double operation on them is exact) and table entries.
  They are modelled as \<open>int\<close>; the 32-bit operators \<^verbatim>\<open>| ^ << >>>\<close> are modelled on
  \<open>32 word\<close>.  A failed \<^verbatim>\<open>goog.asserts\<close> call throws; each call site is one constructor of
  \<open>error\<close>, named after the error kind the specification gives it.
\<close>

datatype error =
    MalformedLength  \<comment> \<open>\<^verbatim>\<open>assert(cardsStr.length % 2 == 0)\<close> in \<^verbatim>\<open>fromString\<close>\<close>
  | InvalidSuit      \<comment> \<open>\<^verbatim>\<open>fail('Unknown suit: ...')\<close> in \<^verbatim>\<open>fromStringSingle_\<close>\<close>
  | InvalidRank      \<comment> \<open>\<^verbatim>\<open>fail('Wrong rank: ...')\<close> in \<^verbatim>\<open>fromStringSingle_\<close>\<close>
  | OutOfRange       \<comment> \<open>\<^verbatim>\<open>assert(rank, 'Wrong rank: ...')\<close> in \<^verbatim>\<open>toStringSingle_\<close>\<close>
  | InvalidHandSize  \<comment> \<open>\<^verbatim>\<open>fail('The number of cards should be 5 to 7: ...')\<close> in \<^verbatim>\<open>evalHand\<close>\<close>

subsection \<open>JavaScript arithmetic on integers\<close>

text \<open>\<^verbatim>\<open>a % b\<close> for a positive divisor: the remainder takes the sign of the dividend.\<close>

definition js_rem :: "int \<Rightarrow> int \<Rightarrow> int" where
  "js_rem a b = (if 0 \<le> a then a mod b else - ((- a) mod b))"

text \<open>
  The shift count of \<^verbatim>\<open>1 << (c - 1) / 4\<close>: the quotient is a double, the shift operator
  truncates it towards zero and keeps its five low bits.
\<close>

definition shift_count :: "int \<Rightarrow> nat" where
  "shift_count c =
     nat ((if 1 \<le> c then (c - 1) div 4 else - ((1 - c) div 4)) mod 32)"

subsection \<open>Constants\<close>

definition SPADE :: char where "SPADE = CHR ''s''"
definition HEART :: char where "HEART = CHR ''h''"
definition DIAMOND :: char where "DIAMOND = CHR ''d''"
definition CLUB :: char where "CLUB = CHR ''c''"

text \<open>
  \<^verbatim>\<open>poker.cards.Ranks\<close>: an object whose keys are the decimal strings of 10, 11, 12, 13
  and 1.  It is only ever indexed with the decimal string of an integer, so the key is
  modelled by that integer; a missing key reads \<^verbatim>\<open>undefined\<close>, here \<open>None\<close>.
\<close>

definition Ranks :: "int \<Rightarrow> char option" where
  "Ranks k =
     (if k = 10 then Some CHR ''T''
      else if k = 11 then Some CHR ''J''
      else if k = 12 then Some CHR ''Q''
      else if k = 13 then Some CHR ''K''
      else if k = 1 then Some CHR ''A''
      else None)"

subsection \<open>Single cards\<close>

text \<open>\<^verbatim>\<open>str[i]\<close>: the character, or \<^verbatim>\<open>undefined\<close> past the end.\<close>

definition char_at :: "string \<Rightarrow> nat \<Rightarrow> char option" where
  "char_at s i = (if i < length s then Some (s ! i) else None)"

text \<open>\<^verbatim>\<open>parseInt\<close> on a one-digit string.\<close>

definition parseInt :: "char \<Rightarrow> int" where
  "parseInt ch = int (of_char ch) - 48"

text \<open>The suit switch of \<^verbatim>\<open>fromStringSingle_\<close>; \<open>None\<close> is the default branch.\<close>

definition suit_switch :: "char option \<Rightarrow> int option" where
  "suit_switch c =
     (if c = Some SPADE then Some 0
      else if c = Some HEART then Some 1
      else if c = Some DIAMOND then Some 2
      else if c = Some CLUB then Some 3
      else None)"

text \<open>The rank part of \<^verbatim>\<open>fromStringSingle_\<close>; \<open>None\<close> is the default branch.\<close>

definition rank_switch :: "char option \<Rightarrow> int option" where
  "rank_switch c =
     (if c \<in> Some ` set ''23456789'' then Some (parseInt (the c) - 2)
      else if c = None then None
      else if c = Ranks 10 then Some 8
      else if c = Ranks 11 then Some 9
      else if c = Ranks 12 then Some 10
      else if c = Ranks 13 then Some 11
      else if c = Ranks 1 then Some 12
      else None)"

text \<open>\<^verbatim>\<open>fromStringSingle_\<close> (a constant's name cannot end in an underscore).\<close>

definition fromStringSingle :: "string \<Rightarrow> error + int" where
  "fromStringSingle cardStr =
     (case suit_switch (char_at cardStr 0) of
        None \<Rightarrow> Inl InvalidSuit
      | Some suit \<Rightarrow>
          (case rank_switch (char_at cardStr 1) of
             None \<Rightarrow> Inl InvalidRank
           | Some rank \<Rightarrow> Inr (suit + 4 * rank + 1)))"

text \<open>The suit switch of \<^verbatim>\<open>toStringSingle_\<close>: no default branch, so \<open>suit\<close> may stay
  \<^verbatim>\<open>undefined\<close>.\<close>

definition suit_char :: "int \<Rightarrow> char option" where
  "suit_char k =
     (if k = 0 then Some SPADE
      else if k = 1 then Some HEART
      else if k = 2 then Some DIAMOND
      else if k = 3 then Some CLUB
      else None)"

text \<open>\<^verbatim>\<open>rankNum.toString()\<close> for \<open>2 \<le> rankNum \<le> 9\<close>.\<close>

definition digit_char :: "int \<Rightarrow> char" where
  "digit_char k = ''0123456789'' ! nat k"

text \<open>String concatenation \<^verbatim>\<open>suit + rank\<close>, where \<open>suit\<close> may be \<^verbatim>\<open>undefined\<close>.\<close>

definition js_concat :: "char option \<Rightarrow> char \<Rightarrow> string" where
  "js_concat suit rank = (case suit of None \<Rightarrow> ''undefined'' | Some s \<Rightarrow> [s]) @ [rank]"

text \<open>\<^verbatim>\<open>toStringSingle_\<close>.\<close>

definition toStringSingle :: "int \<Rightarrow> error + string" where
  "toStringSingle cardNum =
     (let suit = suit_char (js_rem (cardNum - 1) 4);
          rankNum = (cardNum - 1) div 4 + 2;
          rankNum = (if rankNum = 14 then 1 else rankNum)
      in if 2 \<le> rankNum \<and> rankNum \<le> 9 then Inr (js_concat suit (digit_char rankNum))
         else (case Ranks rankNum of
                 None \<Rightarrow> Inl OutOfRange
               | Some rank \<Rightarrow> Inr (js_concat suit rank)))"

subsection \<open>Card sequences\<close>

text \<open>\<^verbatim>\<open>str.substr(start, len)\<close> for a start inside the string.\<close>

definition substr :: "string \<Rightarrow> nat \<Rightarrow> nat \<Rightarrow> string" where
  "substr s start len = take len (drop start s)"

text \<open>
  One round of the loop of \<^verbatim>\<open>fromString\<close>.  The accumulator is the value of
  \<open>cardsNum\<close>, or the exception that has left the loop.
\<close>

definition fromString_step :: "string \<Rightarrow> nat \<Rightarrow> error + int \<Rightarrow> error + int" where
  "fromString_step cardsStr i acc =
     (case acc of
        Inl e \<Rightarrow> Inl e
      | Inr cardsNum \<Rightarrow>
          (case fromStringSingle (substr cardsStr (2 * i) 2) of
             Inl e \<Rightarrow> Inl e
           | Inr c \<Rightarrow> Inr (cardsNum * 53 + c)))"

definition fromString :: "string \<Rightarrow> error + int" where
  "fromString cardsStr =
     (if length cardsStr mod 2 \<noteq> 0 then Inl MalformedLength
      else fold (fromString_step cardsStr) [0 ..< length cardsStr div 2] (Inr 0))"

text \<open>
  The loop of \<^verbatim>\<open>toString\<close>.  It does not end on a negative number (the floor of
  \<open>-1 / 53\<close> is \<open>-1\<close>), so it is a partial function: \<open>None\<close> is "does not return".
\<close>

partial_function (option) toString_loop :: "int \<Rightarrow> string list \<Rightarrow> (error + string list) option" where
  "toString_loop cards strs =
     (if cards = 0 then Some (Inr strs)
      else (case toStringSingle (js_rem cards 53) of
              Inl e \<Rightarrow> Some (Inl e)
            | Inr s \<Rightarrow> toString_loop (cards div 53) (strs @ [s])))"

declare toString_loop.simps [code]

definition toString :: "int \<Rightarrow> (error + string) option" where
  "toString cardsNum =
     (case toString_loop cardsNum [] of
        None \<Rightarrow> None
      | Some (Inl e) \<Rightarrow> Some (Inl e)
      | Some (Inr strs) \<Rightarrow> Some (Inr (concat (rev strs))))"

subsection \<open>The lookup tables\<close>

text \<open>
  \<^verbatim>\<open>poker.hashtables\<close> is not part of the sources at hand, so its four tables are a
  parameter of the evaluator.  A table maps an index to its (integer) entry, \<open>None\<close>
  where reading it gives \<^verbatim>\<open>undefined\<close>.
\<close>

record tables =
  UNIQUE5 :: "int \<Rightarrow> int option"
  RANK_PRIMES :: "int \<Rightarrow> int option"
  PAIR :: "int \<Rightarrow> int option"
  PAIR_ADJUST :: "int \<Rightarrow> int option"

subsection \<open>Five cards\<close>

text \<open>
  \<^verbatim>\<open>eval5Cards_\<close> reads \<open>cards[0]\<close> to \<open>cards[4]\<close>; \<^verbatim>\<open>evalHand\<close> only calls it with arrays of
  five elements.  The first loop: \<^verbatim>\<open>rankBits |= 1 << (cards[i] - 1) / 4\<close>.
\<close>

definition rankBits :: "int list \<Rightarrow> 32 word" where
  "rankBits cards =
     fold (\<lambda>i bits. bits OR push_bit (shift_count (cards ! i)) 1) [0 ..< 5] 0"

text \<open>The flush loop: it leaves \<open>flush\<close> true iff no \<open>i\<close> from 1 to 4 finds a difference.\<close>

definition flush :: "int list \<Rightarrow> bool" where
  "flush cards =
     list_all (\<lambda>i. \<not> js_rem (cards ! 0) 4 \<noteq> js_rem (cards ! i) 4) [1 ..< 5]"

text \<open>
  The product loop.  A prime that reads \<^verbatim>\<open>undefined\<close> makes the product \<^verbatim>\<open>NaN\<close>, which
  stays; \<open>None\<close> stands for it.
\<close>

definition rank_product :: "tables \<Rightarrow> int list \<Rightarrow> int option" where
  "rank_product T cards =
     fold (\<lambda>i product.
             (case product of
                None \<Rightarrow> None
              | Some p \<Rightarrow>
                  (case RANK_PRIMES T ((cards ! i - 1) div 4) of
                     None \<Rightarrow> None
                   | Some q \<Rightarrow> Some (p * q))))
          [0 ..< 5] (Some 1)"

text \<open>
  The hash of the product.  Each of \<^verbatim>\<open>^ << >>>\<close> converts its operands modulo \<open>2 ^ 32\<close>
  (and \<^verbatim>\<open>NaN\<close> to 0); the additions between them are exact on doubles, so the whole
  computation is one on 32-bit words.  The result is the pair \<open>(a, b)\<close>.
\<close>

definition pair_hash :: "int option \<Rightarrow> 32 word \<times> 32 word" where
  "pair_hash product =
     (let p0 = (case product of None \<Rightarrow> 0 | Some p \<Rightarrow> word_of_int (p + 0xe91aaa35));
          p1 = p0 XOR drop_bit 16 p0;
          p2 = p1 + push_bit 8 p1;
          p3 = p2 XOR drop_bit 4 p2
      in (drop_bit 19 (p3 + push_bit 2 p3), drop_bit 8 p3 AND 0x1ff))"

text \<open>\<^verbatim>\<open>PAIR[a ^ PAIR_ADJUST[b]]\<close>; the xor converts \<^verbatim>\<open>undefined\<close> to 0 and gives a signed
  32-bit value.\<close>

definition pair_lookup :: "tables \<Rightarrow> int option \<Rightarrow> int option" where
  "pair_lookup T product =
     (let (a, b) = pair_hash product;
          adjust = (case PAIR_ADJUST T (uint b) of None \<Rightarrow> 0 | Some v \<Rightarrow> word_of_int v)
      in PAIR T (sint (a XOR adjust)))"

text \<open>\<^verbatim>\<open>eval5Cards_\<close>.  The result is a number, or \<^verbatim>\<open>undefined\<close> (\<open>None\<close>) when the last
  table has no entry.  \<^verbatim>\<open>if (unique5)\<close> is false for \<^verbatim>\<open>undefined\<close> and for 0.\<close>

definition eval5Cards :: "tables \<Rightarrow> int list \<Rightarrow> int option" where
  "eval5Cards T cards =
     (let unique5 = UNIQUE5 T (sint (rankBits cards))
      in if unique5 \<noteq> None \<and> unique5 \<noteq> Some 0 then
           (if flush cards then
              (if the unique5 < 1610 then Some (the unique5 - 1599)
               else Some (the unique5 - 5863))
            else unique5)
         else pair_lookup T (rank_product T cards))"

subsection \<open>Five to seven cards\<close>

text \<open>\<^verbatim>\<open>if (hand < bestHand) bestHand = hand\<close>; the comparison is false when \<open>hand\<close> is
  \<^verbatim>\<open>undefined\<close>.\<close>

definition better :: "int option \<Rightarrow> int \<Rightarrow> int" where
  "better hand bestHand =
     (case hand of None \<Rightarrow> bestHand | Some h \<Rightarrow> if h < bestHand then h else bestHand)"

text \<open>The inner loops that build \<open>cards\<close> out of six and out of seven cards.\<close>

definition omit_one :: "int list \<Rightarrow> nat \<Rightarrow> int list" where
  "omit_one allCards i = map (\<lambda>j. allCards ! j) (filter (\<lambda>j. j \<noteq> i) [0 ..< 6])"

definition omit_two :: "int list \<Rightarrow> nat \<Rightarrow> nat \<Rightarrow> int list" where
  "omit_two allCards i j =
     map (\<lambda>k. allCards ! k) (filter (\<lambda>k. k \<noteq> i \<and> k \<noteq> j) [0 ..< 7])"

definition best_of_6 :: "tables \<Rightarrow> int list \<Rightarrow> int" where
  "best_of_6 T allCards =
     fold (\<lambda>i bestHand. better (eval5Cards T (omit_one allCards i)) bestHand) [0 ..< 6] 9999"

definition best_of_7 :: "tables \<Rightarrow> int list \<Rightarrow> int" where
  "best_of_7 T allCards =
     fold (\<lambda>i bestHand.
             fold (\<lambda>j bestHand. better (eval5Cards T (omit_two allCards i j)) bestHand)
                  [i + 1 ..< 7] bestHand)
          [0 ..< 6] 9999"

text \<open>The part of \<^verbatim>\<open>evalHand\<close> after \<open>allCards\<close> is built.\<close>

definition evalCards :: "tables \<Rightarrow> int list \<Rightarrow> error + int option" where
  "evalCards T allCards =
     (if length allCards = 5 then Inr (eval5Cards T allCards)
      else if length allCards = 6 then Inr (Some (best_of_6 T allCards))
      else if length allCards = 7 then Inr (Some (best_of_7 T allCards))
      else Inl InvalidHandSize)"

text \<open>An argument of \<^verbatim>\<open>evalHand\<close> is a number or a string.\<close>

datatype arg = Num int | Str string

text \<open>\<^verbatim>\<open>typeof x == 'number' ? x : poker.cards.fromString(x)\<close>\<close>

fun arg_num :: "arg \<Rightarrow> error + int" where
  "arg_num (Num n) = Inr n"
| "arg_num (Str s) = fromString s"

text \<open>\<^verbatim>\<open>if (opt_otherCardsNumOrStr)\<close>: a missing argument, 0 and the empty string are false.\<close>

fun truthy :: "arg option \<Rightarrow> bool" where
  "truthy None = False"
| "truthy (Some (Num n)) = (n \<noteq> 0)"
| "truthy (Some (Str s)) = (s \<noteq> [])"

text \<open>
  The loop that pushes the base-53 digits of a number onto \<open>allCards\<close>, lowest digit first.
  Like the loop of \<^verbatim>\<open>toString\<close> it does not end on a negative number.
\<close>

partial_function (option) cards_loop :: "int \<Rightarrow> int list \<Rightarrow> int list option" where
  "cards_loop cardsNum allCards =
     (if cardsNum = 0 then Some allCards
      else cards_loop (cardsNum div 53) (allCards @ [js_rem cardsNum 53]))"

declare cards_loop.simps [code]

definition push_cards :: "arg \<Rightarrow> int list \<Rightarrow> (error + int list) option" where
  "push_cards a allCards =
     (case arg_num a of
        Inl e \<Rightarrow> Some (Inl e)
      | Inr cardsNum \<Rightarrow> map_option Inr (cards_loop cardsNum allCards))"

definition allCards_of :: "arg \<Rightarrow> arg option \<Rightarrow> (error + int list) option" where
  "allCards_of cardsNumOrStr opt_otherCardsNumOrStr =
     (case push_cards cardsNumOrStr [] of
        None \<Rightarrow> None
      | Some (Inl e) \<Rightarrow> Some (Inl e)
      | Some (Inr allCards) \<Rightarrow>
          if truthy opt_otherCardsNumOrStr
          then push_cards (the opt_otherCardsNumOrStr) allCards
          else Some (Inr allCards))"

text \<open>\<^verbatim>\<open>evalHand\<close>: \<open>None\<close> when a loop does not end, \<open>Some (Inl e)\<close> when it throws,
  \<open>Some (Inr v)\<close> when it returns \<open>v\<close>.\<close>

definition evalHand :: "tables \<Rightarrow> arg \<Rightarrow> arg option \<Rightarrow> (error + int option) option" where
  "evalHand T cardsNumOrStr opt_otherCardsNumOrStr =
     (case allCards_of cardsNumOrStr opt_otherCardsNumOrStr of
        None \<Rightarrow> None
      | Some (Inl e) \<Rightarrow> Some (Inl e)
      | Some (Inr allCards) \<Rightarrow> Some (evalCards T allCards))"

subsection \<open>Sample table entries\<close>

text \<open>
  A small instance of the tables, for running the evaluator on concrete hands.  The rank
  pattern A-K-Q-J-T has the entry 1600 (the strongest straight) and the pattern 7-5-4-3-2 the
  entry 7462 (the weakest hand); no other pattern has an entry.  The primes are the first
  thirteen, and every hand with a repeated rank reads the same entry 2468 of \<open>PAIR\<close>.
\<close>

definition sample_tables :: tables where
  "sample_tables =
     \<lparr> UNIQUE5 = (\<lambda>k. if k = 0x1F00 then Some 1600
                      else if k = 0x002F then Some 7462
                      else Some 0),
       RANK_PRIMES = (\<lambda>k. if 0 \<le> k \<and> k < 13
                          then Some ([2, 3, 5, 7, 11, 13, 17, 19, 23, 29, 31, 37, 41] ! nat k)
                          else None),
       PAIR = (\<lambda>k. if 0 \<le> k \<and> k < 8192 then Some 2468 else None),
       PAIR_ADJUST = (\<lambda>k. if 0 \<le> k \<and> k < 512 then Some 0 else None) \<rparr>"

section \<open>Composite codes as doubles\<close>

text \<open>
  The functions above compute composite codes with unbounded integers, which is what the
  doubles of the source do as long as the numbers stay below \<open>2 ^ 53\<close> (strings of at most
  nine cards).  The following versions of \<^verbatim>\<open>fromString\<close> and of \<^verbatim>\<open>evalHand\<close> carry the
  rounding and the overflow of doubles, for strings of any length.  A number that occurs as
  a composite code is an integer-valued double or \<^verbatim>\<open>Infinity\<close>.
\<close>

datatype number = Finite int | Infinity

text \<open>The integer nearest to \<open>p / q\<close> for \<open>q > 0\<close>, the even one of two that are equally near.\<close>

definition round_half_even :: "int \<Rightarrow> int \<Rightarrow> int" where
  "round_half_even p q =
     (let f = p div q; r = p mod q
      in if 2 * r < q then f
         else if q < 2 * r then f + 1
         else if even f then f else f + 1)"

text \<open>The number of binary digits of a positive integer.\<close>

function bit_length :: "int \<Rightarrow> nat" where
  "bit_length n = (if n \<le> 0 then 0 else Suc (bit_length (n div 2)))"
  by pat_completeness auto
termination
  by (relation "measure nat") auto

text \<open>
  The double nearest to an integer \<open>n \<ge> 0\<close> (round to nearest, ties to even): integers below
  \<open>2 ^ 53\<close> are doubles; a larger one keeps 53 significant binary digits; a result of
  \<open>2 ^ 1024\<close> or more is \<^verbatim>\<open>Infinity\<close>.
\<close>

definition round_int :: "int \<Rightarrow> number" where
  "round_int n =
     (if n < 2 ^ 53 then Finite n
      else (let sh = bit_length n - 53;
                v = round_half_even n (2 ^ sh) * 2 ^ sh
            in if 2 ^ 1024 \<le> v then Infinity else Finite v))"

text \<open>\<^verbatim>\<open>cardsNum * 53 + c\<close> for a card number \<open>c\<close>: the product is rounded, then the sum.\<close>

definition times_53_plus :: "number \<Rightarrow> int \<Rightarrow> number" where
  "times_53_plus cardsNum c =
     (case cardsNum of
        Infinity \<Rightarrow> Infinity
      | Finite n \<Rightarrow>
          (case round_int (n * 53) of
             Infinity \<Rightarrow> Infinity
           | Finite p \<Rightarrow> round_int (p + c)))"

text \<open>
  \<^verbatim>\<open>Math.floor(x / 53)\<close> for an integer-valued double \<open>x\<close>: the quotient is rounded to a double
  with 53 significant binary digits, whose unit is \<open>2 ^ - k\<close> below, and then floored.
\<close>

definition floor_div_53 :: "int \<Rightarrow> int" where
  "floor_div_53 x =
     (if x = 0 then 0
      else (let k = 59 - int (bit_length ((64 * \<bar>x\<bar>) div 53))
            in if 0 \<le> k
               then (sgn x * round_half_even (\<bar>x\<bar> * 2 ^ nat k) 53) div 2 ^ nat k
               else sgn x * round_half_even \<bar>x\<bar> (53 * 2 ^ nat (- k)) * 2 ^ nat (- k)))"

text \<open>\<^verbatim>\<open>fromString\<close> on doubles.\<close>

definition fromString_double_step :: "string \<Rightarrow> nat \<Rightarrow> error + number \<Rightarrow> error + number" where
  "fromString_double_step cardsStr i acc =
     (case acc of
        Inl e \<Rightarrow> Inl e
      | Inr cardsNum \<Rightarrow>
          (case fromStringSingle (substr cardsStr (2 * i) 2) of
             Inl e \<Rightarrow> Inl e
           | Inr c \<Rightarrow> Inr (times_53_plus cardsNum c)))"

definition fromString_double :: "string \<Rightarrow> error + number" where
  "fromString_double cardsStr =
     (if length cardsStr mod 2 \<noteq> 0 then Inl MalformedLength
      else fold (fromString_double_step cardsStr) [0 ..< length cardsStr div 2]
             (Inr (Finite 0)))"

text \<open>
  The digit loop of \<^verbatim>\<open>evalHand\<close> on doubles.  On \<^verbatim>\<open>Infinity\<close> the source pushes
  \<^verbatim>\<open>Infinity % 53\<close>, which is \<^verbatim>\<open>NaN\<close>, and goes on with \<^verbatim>\<open>Math.floor(Infinity / 53)\<close>, which
  is \<^verbatim>\<open>Infinity\<close> again: the loop does not end and the list is never read, so the model
  leaves the list as it is.
\<close>

partial_function (option) cards_loop_double :: "number \<Rightarrow> int list \<Rightarrow> int list option" where
  "cards_loop_double cardsNum allCards =
     (case cardsNum of
        Infinity \<Rightarrow> cards_loop_double Infinity allCards
      | Finite n \<Rightarrow>
          if n = 0 then Some allCards
          else cards_loop_double (Finite (floor_div_53 n)) (allCards @ [js_rem n 53]))"

declare cards_loop_double.simps [code]

fun arg_num_double :: "arg \<Rightarrow> error + number" where
  "arg_num_double (Num n) = Inr (Finite n)"
| "arg_num_double (Str s) = fromString_double s"

definition push_cards_double :: "arg \<Rightarrow> int list \<Rightarrow> (error + int list) option" where
  "push_cards_double a allCards =
     (case arg_num_double a of
        Inl e \<Rightarrow> Some (Inl e)
      | Inr cardsNum \<Rightarrow> map_option Inr (cards_loop_double cardsNum allCards))"

definition allCards_of_double :: "arg \<Rightarrow> arg option \<Rightarrow> (error + int list) option" where
  "allCards_of_double cardsNumOrStr opt_otherCardsNumOrStr =
     (case push_cards_double cardsNumOrStr [] of
        None \<Rightarrow> None
      | Some (Inl e) \<Rightarrow> Some (Inl e)
      | Some (Inr allCards) \<Rightarrow>
          if truthy opt_otherCardsNumOrStr
          then push_cards_double (the opt_otherCardsNumOrStr) allCards
          else Some (Inr allCards))"

text \<open>\<^verbatim>\<open>evalHand\<close> on doubles.\<close>

definition evalHand_double :: "tables \<Rightarrow> arg \<Rightarrow> arg option \<Rightarrow> (error + int option) option" where
  "evalHand_double T cardsNumOrStr opt_otherCardsNumOrStr =
     (case allCards_of_double cardsNumOrStr opt_otherCardsNumOrStr of
        None \<Rightarrow> None
      | Some (Inl e) \<Rightarrow> Some (Inl e)
      | Some (Inr allCards) \<Rightarrow> Some (evalCards T allCards))"

section \<open>Notions of the specification\<close>

text \<open>A valid card string: a suit character followed by a rank character.\<close>

definition suit_chars :: string where "suit_chars = ''shdc''"
definition rank_chars :: string where "rank_chars = ''23456789TJQKA''"

definition valid_card_string :: "string \<Rightarrow> bool" where
  "valid_card_string s =
     (case s of [suit, rank] \<Rightarrow> suit \<in> set suit_chars \<and> rank \<in> set rank_chars | _ \<Rightarrow> False)"

text \<open>The suit index and the rank index of a card number, and a valid card number.\<close>

definition suit_index :: "int \<Rightarrow> int" where
  "suit_index c = (c - 1) mod 4"

definition rank_index :: "int \<Rightarrow> int" where
  "rank_index c = (c - 1) div 4"

definition valid_card :: "int \<Rightarrow> bool" where
  "valid_card c = (1 \<le> c \<and> c \<le> 52)"

text \<open>All cards of a hand have the same suit.\<close>

definition same_suit :: "int list \<Rightarrow> bool" where
  "same_suit cards = (\<forall>c \<in> set cards. \<forall>d \<in> set cards. suit_index c = suit_index d)"

text \<open>The rank mask: 13 bits, bit \<open>i\<close> set iff some card of the hand has rank index \<open>i\<close>.\<close>

definition rank_mask :: "int list \<Rightarrow> 32 word" where
  "rank_mask cards =
     horner_sum of_bool 2 (map (\<lambda>i. \<exists>c \<in> set cards. rank_index c = int i) [0 ..< 13])"

text \<open>
  The composite code of a card sequence, in base 53: each card takes the code so far times
  53 plus its own number.
\<close>

definition code_of :: "int list \<Rightarrow> int" where
  "code_of cards = fold (\<lambda>c code. code * 53 + c) cards 0"

text \<open>The number of a valid card string and the string of a valid card number.\<close>

definition card_num :: "string \<Rightarrow> int" where
  "card_num s = projr (fromStringSingle s)"

definition card_str :: "int \<Rightarrow> string" where
  "card_str c = projr (toStringSingle c)"

text \<open>The size-5 subsets of a hand: its subsequences of five cards.\<close>

definition five_subsets :: "int list \<Rightarrow> int list list" where
  "five_subsets cards = filter (\<lambda>ys. length ys = 5) (subseqs cards)"

text \<open>
  An argument of \<^verbatim>\<open>evalHand\<close> that stands for a card sequence: its card string or its
  composite code.  A missing second argument stands for no cards.
\<close>

fun represents :: "arg \<Rightarrow> int list \<Rightarrow> bool" where
  "represents (Str s) cards = (s = concat (map card_str cards))"
| "represents (Num n) cards = (n = code_of cards)"

fun represents_opt :: "arg option \<Rightarrow> int list \<Rightarrow> bool" where
  "represents_opt None cards = (cards = [])"
| "represents_opt (Some a) cards = represents a cards"

section \<open>Auxiliary definitions\<close>

text \<open>The list of all valid card strings.\<close>

definition all_card_strings :: "string list" where
  "all_card_strings = concat (map (\<lambda>suit. map (\<lambda>rank. [suit, rank]) rank_chars) suit_chars)"

text \<open>The index pairs \<open>(i, j)\<close> that the double loop over seven cards goes through, in order.\<close>

definition pairs7 :: "(nat \<times> nat) list" where
  "pairs7 = concat (map (\<lambda>i. map (Pair i) [i + 1 ..< 7]) [0 ..< 6])"

text \<open>The bodies of the rank-bit loop and of the product loop, as functions of the card.\<close>

definition or_rank :: "int \<Rightarrow> 32 word \<Rightarrow> 32 word" where
  "or_rank c bits = bits OR push_bit (shift_count c) 1"

definition times_prime :: "tables \<Rightarrow> int \<Rightarrow> int option \<Rightarrow> int option" where
  "times_prime T c product =
     (case product of
        None \<Rightarrow> None
      | Some p \<Rightarrow>
          (case RANK_PRIMES T ((c - 1) div 4) of
             None \<Rightarrow> None
           | Some q \<Rightarrow> Some (p * q)))"

text \<open>A lower bound of the double nearest to \<open>n\<close>: the rounding takes away at most
  \<open>n / 2 ^ 53\<close>.\<close>

definition low :: "int \<Rightarrow> int" where
  "low n = n - n div 2 ^ 53"

section \<open>Properties\<close>

subsection \<open>Single cards\<close>

lemma valid_card_string_iff: "valid_card_string s \<longleftrightarrow> s \<in> set all_card_strings"
proof -
  have "valid_card_string s \<longleftrightarrow> (\<exists>a b. s = [a, b] \<and> a \<in> set suit_chars \<and> b \<in> set rank_chars)"
    by (auto simp add: valid_card_string_def split: list.splits)
  also have "\<dots> \<longleftrightarrow> s \<in> set all_card_strings"
    by (auto simp add: all_card_strings_def)
  finally show ?thesis .
qed

lemma encode_then_decode_all:
  "list_all (\<lambda>n. case toStringSingle n of
                    Inl e \<Rightarrow> False
                  | Inr s \<Rightarrow> valid_card_string s \<and> fromStringSingle s = Inr n) [1 .. 52]"
  by code_simp

lemma decode_then_encode_all:
  "list_all (\<lambda>s. case fromStringSingle s of
                    Inl e \<Rightarrow> False
                  | Inr n \<Rightarrow> 1 \<le> n \<and> n \<le> 52 \<and> toStringSingle n = Inr s) all_card_strings"
  by code_simp

lemma encode_then_decode:
  assumes "1 \<le> n" "n \<le> 52"
  shows "\<exists>s. toStringSingle n = Inr s \<and> valid_card_string s \<and> fromStringSingle s = Inr n"
proof -
  from assms have "n \<in> set [1 .. 52]" by simp
  with encode_then_decode_all
  have "case toStringSingle n of Inl e \<Rightarrow> False
        | Inr s \<Rightarrow> valid_card_string s \<and> fromStringSingle s = Inr n"
    unfolding list_all_iff by blast
  then show ?thesis by (cases "toStringSingle n") simp_all
qed

lemma decode_then_encode:
  assumes "valid_card_string s"
  shows "\<exists>n. fromStringSingle s = Inr n \<and> 1 \<le> n \<and> n \<le> 52 \<and> toStringSingle n = Inr s"
proof -
  from assms have "s \<in> set all_card_strings" by (simp add: valid_card_string_iff)
  with decode_then_encode_all
  have "case fromStringSingle s of Inl e \<Rightarrow> False
        | Inr n \<Rightarrow> 1 \<le> n \<and> n \<le> 52 \<and> toStringSingle n = Inr s"
    unfolding list_all_iff by blast
  then show ?thesis by (cases "fromStringSingle s") simp_all
qed

text \<open>
  C2: encoding a card number between 1 and 52 and decoding the result gives the number back;
  decoding a valid two-character card string and encoding the result gives the string back;
  decoding is a bijection between the 52 valid strings and the numbers 1 to 52.
\<close>

theorem card_codec_bijection:
  "(\<forall>n. 1 \<le> n \<and> n \<le> 52 \<longrightarrow>
      (\<exists>s. toStringSingle n = Inr s \<and> valid_card_string s \<and> fromStringSingle s = Inr n)) \<and>
   (\<forall>s. valid_card_string s \<longrightarrow>
      (\<exists>n. fromStringSingle s = Inr n \<and> 1 \<le> n \<and> n \<le> 52 \<and> toStringSingle n = Inr s)) \<and>
   bij_betw (\<lambda>s. projr (fromStringSingle s)) {s. valid_card_string s} {1 .. 52} \<and>
   card {s. valid_card_string s} = 52"
proof (intro conjI allI impI)
  fix n :: int assume "1 \<le> n \<and> n \<le> 52"
  then show "\<exists>s. toStringSingle n = Inr s \<and> valid_card_string s \<and> fromStringSingle s = Inr n"
    using encode_then_decode by blast
next
  fix s assume "valid_card_string s"
  then show "\<exists>n. fromStringSingle s = Inr n \<and> 1 \<le> n \<and> n \<le> 52 \<and> toStringSingle n = Inr s"
    by (rule decode_then_encode)
next
  show bij: "bij_betw (\<lambda>s. projr (fromStringSingle s)) {s. valid_card_string s} {1 .. 52}"
  proof (rule bij_betw_byWitness [where f' = "\<lambda>n. projr (toStringSingle n)"])
    show "\<forall>s\<in>{s. valid_card_string s}. projr (toStringSingle (projr (fromStringSingle s))) = s"
    proof
      fix s assume "s \<in> {s. valid_card_string s}"
      then obtain n where "fromStringSingle s = Inr n" "toStringSingle n = Inr s"
        using decode_then_encode by blast
      then show "projr (toStringSingle (projr (fromStringSingle s))) = s" by simp
    qed
    show "\<forall>n\<in>{1 .. 52}. projr (fromStringSingle (projr (toStringSingle n))) = n"
    proof
      fix n :: int assume "n \<in> {1 .. 52}"
      then obtain s where "toStringSingle n = Inr s" "fromStringSingle s = Inr n"
        using encode_then_decode [of n] by auto
      then show "projr (fromStringSingle (projr (toStringSingle n))) = n" by simp
    qed
    show "(\<lambda>s. projr (fromStringSingle s)) ` {s. valid_card_string s} \<subseteq> {1 .. 52}"
    proof
      fix n assume "n \<in> (\<lambda>s. projr (fromStringSingle s)) ` {s. valid_card_string s}"
      then obtain s where s: "valid_card_string s" "n = projr (fromStringSingle s)" by blast
      from decode_then_encode [OF s(1)] s(2) show "n \<in> {1 .. 52}" by auto
    qed
    show "(\<lambda>n. projr (toStringSingle n)) ` {1 .. 52} \<subseteq> {s. valid_card_string s}"
    proof
      fix s assume "s \<in> (\<lambda>n. projr (toStringSingle n)) ` {1 .. 52}"
      then obtain n :: int where n: "1 \<le> n" "n \<le> 52" "s = projr (toStringSingle n)" by auto
      from encode_then_decode [OF n(1,2)] n(3) show "s \<in> {s. valid_card_string s}" by auto
    qed
  qed
  from bij_betw_same_card [OF bij] show "card {s. valid_card_string s} = 52" by simp
qed

theorem card_codec_bijection_witness:
  "valid_card_string ''sA'' \<and> fromStringSingle ''sA'' = Inr 49 \<and> toStringSingle 49 = Inr ''sA''"
proof -
  have v: "valid_card_string ''sA''" by code_simp
  have d: "fromStringSingle ''sA'' = Inr 49" by code_simp
  from card_codec_bijection v obtain n where
    "fromStringSingle ''sA'' = Inr n" and "toStringSingle n = Inr ''sA''" by blast
  with d v show ?thesis by simp
qed

text \<open>
  Outside 1 to 52, \<^verbatim>\<open>toStringSingle_\<close> fails exactly below \<open>- 3\<close> and above 52.
\<close>

lemma toStringSingle_fails_iff:
  "toStringSingle n = Inl OutOfRange \<longleftrightarrow> n < - 3 \<or> 52 < n"
proof -
  let ?r = "(n - 1) div 4 + 2"
  have r: "?r \<le> 0 \<longleftrightarrow> n < - 3" "15 \<le> ?r \<longleftrightarrow> 52 < n" by linarith+
  consider "?r \<le> 0" | "?r = 1" | "2 \<le> ?r" "?r \<le> 9" | "?r = 10" | "?r = 11" | "?r = 12"
    | "?r = 13" | "?r = 14" | "15 \<le> ?r" by linarith
  then show ?thesis
  proof cases
    case 1
    with r show ?thesis by (simp add: toStringSingle_def Ranks_def Let_def)
  next
    case 2
    with r show ?thesis by (simp add: toStringSingle_def Ranks_def Let_def)
  next
    case 3
    with r show ?thesis by (simp add: toStringSingle_def Ranks_def Let_def)
  next
    case 4
    with r show ?thesis by (simp add: toStringSingle_def Ranks_def Let_def)
  next
    case 5
    with r show ?thesis by (simp add: toStringSingle_def Ranks_def Let_def)
  next
    case 6
    with r show ?thesis by (simp add: toStringSingle_def Ranks_def Let_def)
  next
    case 7
    with r show ?thesis by (simp add: toStringSingle_def Ranks_def Let_def)
  next
    case 8
    with r show ?thesis by (simp add: toStringSingle_def Ranks_def Let_def)
  next
    case 9
    with r show ?thesis by (simp add: toStringSingle_def Ranks_def Let_def)
  qed
qed

text \<open>
  C4: \<^verbatim>\<open>toStringSingle_\<close> does not fail on 0, which is outside 1 to 52: the key \<open>1\<close> that
  the rank table keeps for the ace is also the rank number computed from \<open>- 3\<close> to 0, and
  the suit switch has no default branch.  \<^verbatim>\<open>toString\<close> reaches it with the code 53, whose
  low digit is 0.
\<close>

theorem toStringSingle_accepts_zero:
  "toStringSingle 0 = Inr ''undefinedA'' \<and> toStringSingle (- 3) = Inr ''sA'' \<and>
   toString 53 = Some (Inr ''s2undefinedA'')"
  by code_simp

subsection \<open>Five cards\<close>

lemma five_cards:
  assumes "length (cards :: int list) = 5"
  obtains a b c d e where "cards = [a, b, c, d, e]"
proof -
  from assms obtain a t1 where 1: "cards = a # t1" "length t1 = 4" by (cases cards) auto
  then obtain b t2 where 2: "t1 = b # t2" "length t2 = 3" by (cases t1) auto
  then obtain c t3 where 3: "t2 = c # t3" "length t3 = 2" by (cases t2) auto
  then obtain d t4 where 4: "t3 = d # t4" "length t4 = 1" by (cases t3) auto
  then obtain e where 5: "t4 = [e]" by (cases t4) auto
  from 1 2 3 4 5 have "cards = [a, b, c, d, e]" by simp
  then show thesis by (rule that)
qed

lemma upt_5: "[0 ..< 5] = [0, 1, 2, 3, 4]"
  by (simp add: upt_rec)

lemma upt_1_5: "[Suc 0 ..< 5] = [1, 2, 3, 4]"
  by (simp add: upt_rec)

lemma js_rem_nonneg: "0 \<le> a \<Longrightarrow> js_rem a b = a mod b"
  by (simp add: js_rem_def)

lemma suit_index_eq_iff:
  "suit_index c = suit_index d \<longleftrightarrow> c mod 4 = d mod 4"
proof -
  have "c - 1 - (d - 1) = c - d" by simp
  then show ?thesis by (simp add: suit_index_def mod_eq_dvd_iff)
qed

lemma all_equal_iff:
  assumes "a \<in> set xs"
  shows "(\<forall>x \<in> set xs. \<forall>y \<in> set xs. f x = f y) \<longleftrightarrow> (\<forall>x \<in> set xs. f a = f x)"
  using assms by metis

lemma flush_same_suit:
  assumes len: "length cards = 5" and valid: "\<forall>c \<in> set cards. valid_card c"
  shows "flush cards \<longleftrightarrow> same_suit cards"
proof -
  from len obtain a b c d e where cards: "cards = [a, b, c, d, e]" by (rule five_cards)
  with valid have "0 \<le> a" "0 \<le> b" "0 \<le> c" "0 \<le> d" "0 \<le> e"
    by (simp_all add: valid_card_def)
  then have "flush cards \<longleftrightarrow>
      a mod 4 = b mod 4 \<and> a mod 4 = c mod 4 \<and> a mod 4 = d mod 4 \<and> a mod 4 = e mod 4"
    by (simp add: flush_def cards upt_1_5 js_rem_nonneg)
  also have "\<dots> \<longleftrightarrow> (\<forall>x \<in> set cards. a mod 4 = x mod 4)"
    by (simp add: cards)
  also have "\<dots> \<longleftrightarrow> (\<forall>x \<in> set cards. \<forall>y \<in> set cards. x mod 4 = y mod 4)"
    by (rule all_equal_iff [symmetric]) (simp add: cards)
  also have "\<dots> \<longleftrightarrow> same_suit cards"
    by (simp add: same_suit_def suit_index_eq_iff)
  finally show ?thesis .
qed

lemma rank_index_valid:
  assumes "valid_card c"
  shows "0 \<le> rank_index c" and "rank_index c < 13"
  using assms unfolding valid_card_def rank_index_def by presburger+

lemma shift_count_valid:
  assumes "valid_card c"
  shows "shift_count c = nat (rank_index c)"
proof -
  from rank_index_valid [OF assms] have "rank_index c mod 32 = rank_index c" by simp
  with assms show ?thesis by (simp add: shift_count_def valid_card_def rank_index_def)
qed

lemma bit_rank_mask:
  "bit (rank_mask cards) i \<longleftrightarrow> i < 13 \<and> (\<exists>c \<in> set cards. rank_index c = int i)"
  by (auto simp add: rank_mask_def bit_horner_sum_bit_word_iff)

lemma bit_one_shifted:
  "bit (push_bit n (1 :: 32 word)) i \<longleftrightarrow> i = n \<and> n < 32"
  by (auto simp add: bit_exp_iff)

lemma bit_rankBits:
  "bit (rankBits [a, b, c, d, e]) i \<longleftrightarrow>
     i < 32 \<and> (i = shift_count a \<or> i = shift_count b \<or> i = shift_count c \<or>
       i = shift_count d \<or> i = shift_count e)"
  unfolding rankBits_def upt_5 by (auto simp add: bit_or_iff bit_exp_iff)

lemma rankBits_rank_mask:
  assumes len: "length cards = 5" and valid: "\<forall>c \<in> set cards. valid_card c"
  shows "rankBits cards = rank_mask cards"
proof (rule bit_word_eqI)
  fix i :: nat
  from len obtain a b c d e where cards: "cards = [a, b, c, d, e]" by (rule five_cards)
  with valid have v: "valid_card a" "valid_card b" "valid_card c" "valid_card d" "valid_card e"
    by simp_all
  note r = v [THEN rank_index_valid(1)] v [THEN rank_index_valid(2)]
  have "bit (rankBits cards) i \<longleftrightarrow> i < 32 \<and>
      (i = nat (rank_index a) \<or> i = nat (rank_index b) \<or> i = nat (rank_index c) \<or>
      i = nat (rank_index d) \<or> i = nat (rank_index e))"
    by (simp add: cards bit_rankBits shift_count_valid v)
  also have "\<dots> \<longleftrightarrow> i < 13 \<and> (\<exists>x \<in> set cards. rank_index x = int i)"
    using r by (auto simp add: cards)
  finally show "bit (rankBits cards) i \<longleftrightarrow> bit (rank_mask cards) i"
    by (simp add: bit_rank_mask)
qed

lemma uint_rank_mask_less: "uint (rank_mask cards) < 2 ^ 13"
proof -
  have "take_bit 13 (rank_mask cards) = rank_mask cards"
    by (rule bit_word_eqI) (auto simp add: bit_take_bit_iff bit_rank_mask)
  then have "uint (rank_mask cards) = take_bit 13 (uint (rank_mask cards))"
    by (simp only: unsigned_take_bit_eq [symmetric])
  also have "\<dots> < 2 ^ 13" by (rule take_bit_int_less_exp)
  finally show ?thesis .
qed

lemma sint_rank_mask: "sint (rank_mask cards) = uint (rank_mask cards)"
proof -
  have "- (2 ^ 31) \<le> (0 :: int)" by simp
  also have "0 \<le> uint (rank_mask cards)" by simp
  finally have "- (2 ^ 31) \<le> uint (rank_mask cards)" .
  moreover have "uint (rank_mask cards) < 2 ^ 31"
    using uint_rank_mask_less [of cards] by simp
  ultimately have "signed_take_bit 31 (uint (rank_mask cards)) = uint (rank_mask cards)"
    by (rule signed_take_bit_int_eq_self)
  then show ?thesis by (simp add: sint_uint)
qed

lemma eval5Cards_unique:
  assumes len: "length cards = 5" and valid: "\<forall>c \<in> set cards. valid_card c"
    and v: "UNIQUE5 T (uint (rank_mask cards)) = Some v" "v \<noteq> 0"
  shows "eval5Cards T cards =
    Some (if same_suit cards then (if v < 1610 then v - 1599 else v - 5863) else v)"
proof -
  have "sint (rankBits cards) = uint (rank_mask cards)"
    by (simp add: rankBits_rank_mask [OF len valid] sint_rank_mask)
  with v show ?thesis
    by (simp add: eval5Cards_def flush_same_suit [OF len valid])
qed

text \<open>
  C6: for five cards between 1 and 52 the rank bits that \<^verbatim>\<open>eval5Cards_\<close> accumulates are the
  13-bit rank mask: bit \<open>i\<close> is set iff \<open>i < 13\<close> and some card \<open>c\<close> of the hand has
  \<open>(c - 1) div 4 = i\<close>.
\<close>

theorem rankBits_is_rank_presence_mask:
  assumes "length cards = 5" and "\<forall>c \<in> set cards. 1 \<le> c \<and> c \<le> 52"
  shows "rankBits cards = rank_mask cards \<and>
    (\<forall>i. bit (rankBits cards) i \<longleftrightarrow> i < 13 \<and> (\<exists>c \<in> set cards. (c - 1) div 4 = int i))"
proof -
  from assms(2) have valid: "\<forall>c \<in> set cards. valid_card c" by (simp add: valid_card_def)
  have "rankBits cards = rank_mask cards"
    using assms(1) valid by (rule rankBits_rank_mask)
  then show ?thesis by (simp add: bit_rank_mask rank_index_def)
qed

theorem rankBits_is_rank_presence_mask_witness:
  "length [49, 45, 41, 37, 33 :: int] = 5 \<and> list_all (\<lambda>c. 1 \<le> c \<and> c \<le> 52) [49, 45, 41, 37, 33 :: int] \<and>
   rankBits [49, 45, 41, 37, 33] = rank_mask [49, 45, 41, 37, 33] \<and>
   rankBits [49, 45, 41, 37, 33] = 0x1F00 \<and> bit (rankBits [49, 45, 41, 37, 33]) 12"
proof -
  have l: "list_all (\<lambda>c. 1 \<le> c \<and> c \<le> 52) [49, 45, 41, 37, 33 :: int]" by simp
  have h1: "length [49, 45, 41, 37, 33 :: int] = 5" by simp
  have h2: "\<forall>c \<in> set [49, 45, 41, 37, 33 :: int]. 1 \<le> c \<and> c \<le> 52" by simp
  have e: "rankBits [49, 45, 41, 37, 33] = 0x1F00" by code_simp
  from rankBits_is_rank_presence_mask [OF h1 h2]
  have "rankBits [49, 45, 41, 37, 33] = rank_mask [49, 45, 41, 37, 33]"
    and "bit (rankBits [49, 45, 41, 37, 33]) 12 \<longleftrightarrow>
      12 < (13 :: nat) \<and> (\<exists>c \<in> set [49, 45, 41, 37, 33 :: int]. (c - 1) div 4 = int 12)"
    by blast+
  with h1 l e show ?thesis by simp
qed

text \<open>
  C7: for five cards between 1 and 52 the flush test, which compares \<open>c % 4\<close> of the first card
  with that of the other four, succeeds iff the suit indices \<open>(c - 1) mod 4\<close> of all five
  cards are equal.
\<close>

theorem flush_test_is_same_suit:
  assumes "length cards = 5" and "\<forall>c \<in> set cards. 1 \<le> c \<and> c \<le> 52"
  shows "flush cards \<longleftrightarrow> (\<forall>c \<in> set cards. \<forall>d \<in> set cards. (c - 1) mod 4 = (d - 1) mod 4)"
proof -
  from assms(2) have valid: "\<forall>c \<in> set cards. valid_card c" by (simp add: valid_card_def)
  from flush_same_suit [OF assms(1) valid] show ?thesis
    by (simp add: same_suit_def suit_index_def)
qed

theorem flush_test_is_same_suit_witness:
  "length [49, 45, 41, 37, 33 :: int] = 5 \<and> list_all (\<lambda>c. 1 \<le> c \<and> c \<le> 52) [49, 45, 41, 37, 33 :: int] \<and>
   flush [49, 45, 41, 37, 33] \<and> \<not> flush [49, 45, 41, 37, 34]"
proof -
  have h1: "length [49, 45, 41, 37, 33 :: int] = 5" by simp
  have h2: "\<forall>c \<in> set [49, 45, 41, 37, 33 :: int]. 1 \<le> c \<and> c \<le> 52" by simp
  have g1: "length [49, 45, 41, 37, 34 :: int] = 5" by simp
  have g2: "\<forall>c \<in> set [49, 45, 41, 37, 34 :: int]. 1 \<le> c \<and> c \<le> 52" by simp
  have l: "list_all (\<lambda>c. 1 \<le> c \<and> c \<le> 52) [49, 45, 41, 37, 33 :: int]" by simp
  have "flush [49, 45, 41, 37, 33]"
    unfolding flush_test_is_same_suit [OF h1 h2] by simp
  moreover have "\<not> flush [49, 45, 41, 37, 34]"
    unfolding flush_test_is_same_suit [OF g1 g2] by simp
  ultimately show ?thesis using h1 l by blast
qed

text \<open>
  C3: for five cards between 1 and 52 whose rank mask has a (non-zero) entry \<open>v\<close> in
  \<open>UNIQUE5\<close>: a flush with \<open>v < 1610\<close> scores \<open>v - 1599\<close>, a flush with \<open>v \<ge> 1610\<close>
  scores \<open>v - 5863\<close>, and a hand that is not a flush scores \<open>v\<close>.
\<close>

theorem eval5Cards_distinct_ranks:
  assumes "length cards = 5" and "\<forall>c \<in> set cards. 1 \<le> c \<and> c \<le> 52"
    and "UNIQUE5 T (uint (rank_mask cards)) = Some v" and "v \<noteq> 0"
  shows "(same_suit cards \<and> v < 1610 \<longrightarrow> eval5Cards T cards = Some (v - 1599)) \<and>
    (same_suit cards \<and> 1610 \<le> v \<longrightarrow> eval5Cards T cards = Some (v - 5863)) \<and>
    (\<not> same_suit cards \<longrightarrow> eval5Cards T cards = Some v)"
proof -
  from assms(2) have valid: "\<forall>c \<in> set cards. valid_card c" by (simp add: valid_card_def)
  from eval5Cards_unique [OF assms(1) valid assms(3,4)] show ?thesis by simp
qed

theorem eval5Cards_distinct_ranks_witness:
  "length [49, 45, 41, 37, 33 :: int] = 5 \<and>
   list_all (\<lambda>c. 1 \<le> c \<and> c \<le> 52) [49, 45, 41, 37, 33 :: int] \<and>
   UNIQUE5 sample_tables (uint (rank_mask [49, 45, 41, 37, 33])) = Some 1600 \<and>
   same_suit [49, 45, 41, 37, 33] \<and>
   eval5Cards sample_tables [49, 45, 41, 37, 33] = Some 1"
proof -
  have l: "list_all (\<lambda>c. 1 \<le> c \<and> c \<le> 52) [49, 45, 41, 37, 33 :: int]" by simp
  have h1: "length [49, 45, 41, 37, 33 :: int] = 5" by simp
  have h2: "\<forall>c \<in> set [49, 45, 41, 37, 33 :: int]. 1 \<le> c \<and> c \<le> 52" by simp
  have h3: "UNIQUE5 sample_tables (uint (rank_mask [49, 45, 41, 37, 33])) = Some 1600"
    by code_simp
  have h4: "(1600 :: int) \<noteq> 0" by simp
  have s: "same_suit [49, 45, 41, 37, 33]" by code_simp
  from eval5Cards_distinct_ranks [OF h1 h2 h3 h4] s
  have "eval5Cards sample_tables [49, 45, 41, 37, 33] = Some 1" by simp
  with h1 l h3 s show ?thesis by blast
qed

subsection \<open>The arguments of \<^verbatim>\<open>evalHand\<close>\<close>

text \<open>
  C10: a second argument that is the number 0 or the empty string is skipped, so
  \<^verbatim>\<open>evalHand\<close> behaves as if it was not given.
\<close>

theorem evalHand_falsy_second_argument:
  "evalHand T c (Some (Num 0)) = evalHand T c None \<and>
   evalHand T c (Some (Str [])) = evalHand T c None"
proof -
  have "allCards_of c (Some (Num 0)) = allCards_of c None"
    by (simp add: allCards_of_def split: option.split sum.split)
  moreover have "allCards_of c (Some (Str [])) = allCards_of c None"
    by (simp add: allCards_of_def split: option.split sum.split)
  ultimately show ?thesis by (simp add: evalHand_def)
qed



subsection \<open>Card sequences\<close>

lemma fromStringSingle_valid:
  assumes "valid_card_string s"
  shows "fromStringSingle s = Inr (card_num s)" and "valid_card (card_num s)"
    and "card_str (card_num s) = s"
  using decode_then_encode [OF assms] by (auto simp add: card_num_def card_str_def valid_card_def)

lemma toStringSingle_valid:
  assumes "valid_card c"
  shows "toStringSingle c = Inr (card_str c)" and "valid_card_string (card_str c)"
    and "card_num (card_str c) = c"
  using encode_then_decode [of c] assms
  by (auto simp add: card_num_def card_str_def valid_card_def)

lemma length_valid_card_string: "valid_card_string s \<Longrightarrow> length s = 2"
  by (auto simp add: valid_card_string_def split: list.splits)

lemma length_concat_cards:
  "\<forall>s \<in> set ss. valid_card_string s \<Longrightarrow> length (concat ss) = 2 * length ss"
  by (induction ss) (simp_all add: length_valid_card_string)

lemma code_of_snoc: "code_of (cs @ [c]) = code_of cs * 53 + c"
  by (simp add: code_of_def)

lemma code_of_Nil: "code_of [] = 0"
  by (simp add: code_of_def)

lemma code_of_bounds:
  "\<forall>c \<in> set cs. valid_card c \<Longrightarrow> 0 \<le> code_of cs \<and> code_of cs < 53 ^ length cs"
proof (induction cs rule: rev_induct)
  case Nil
  show ?case by (simp add: code_of_Nil)
next
  case (snoc c cs)
  then have "0 \<le> code_of cs" "code_of cs + 1 \<le> 53 ^ length cs" "1 \<le> c" "c \<le> 52"
    by (simp_all add: valid_card_def)
  then have "0 \<le> code_of cs * 53 + c" "code_of cs * 53 + c < 53 ^ length cs * 53"
    by linarith+
  then show ?case by (simp add: code_of_snoc mult.commute)
qed

lemma fold_fromString_step:
  assumes "\<forall>s \<in> set ss. valid_card_string s"
  shows "fold (fromString_step (concat ss @ post)) [0 ..< length ss] (Inr 0)
    = Inr (code_of (map card_num ss))"
  using assms
proof (induction ss arbitrary: post rule: rev_induct)
  case Nil
  show ?case by (simp add: code_of_Nil)
next
  case (snoc s ss)
  then have valid: "\<forall>s \<in> set ss. valid_card_string s" and s: "valid_card_string s"
    by simp_all
  have len: "length (concat ss) = 2 * length ss"
    using valid by (rule length_concat_cards)
  let ?f = "fromString_step (concat (ss @ [s]) @ post)"
  have sub: "substr (concat ss @ s @ post) (2 * length ss) 2 = s"
    using len length_valid_card_string [OF s] by (simp add: substr_def)
  have before: "fold ?f [0 ..< length ss] (Inr 0) = Inr (code_of (map card_num ss))"
    using snoc.IH [OF valid, of "s @ post"] by simp
  have "fold ?f [0 ..< length (ss @ [s])] (Inr 0) = ?f (length ss) (fold ?f [0 ..< length ss] (Inr 0))"
    by simp
  also have "\<dots> = ?f (length ss) (Inr (code_of (map card_num ss)))"
    by (simp only: before)
  also have "\<dots> = Inr (code_of (map card_num ss) * 53 + card_num s)"
    by (simp add: fromString_step_def sub fromStringSingle_valid(1) [OF s])
  finally show ?case by (simp add: code_of_snoc)
qed

lemma fromString_concat:
  assumes "\<forall>s \<in> set ss. valid_card_string s"
  shows "fromString (concat ss) = Inr (code_of (map card_num ss))"
  using fold_fromString_step [OF assms, of "[]"] length_concat_cards [OF assms]
  by (simp add: fromString_def)

lemma code_of_snoc_digits:
  assumes "\<forall>c \<in> set cs. valid_card c" and "valid_card c"
  shows "code_of (cs @ [c]) \<noteq> 0" and "js_rem (code_of (cs @ [c])) 53 = c"
    and "code_of (cs @ [c]) div 53 = code_of cs"
proof -
  from code_of_bounds [OF assms(1)] have n: "0 \<le> code_of cs" by simp
  from assms(2) have c: "1 \<le> c" "c \<le> 52" by (simp_all add: valid_card_def)
  from n c have pos: "0 < code_of cs * 53 + c" by linarith
  then show "code_of (cs @ [c]) \<noteq> 0" by (simp add: code_of_snoc)
  from pos c show "js_rem (code_of (cs @ [c])) 53 = c"
    by (simp add: code_of_snoc js_rem_def)
  from c show "code_of (cs @ [c]) div 53 = code_of cs"
    by (simp add: code_of_snoc)
qed

lemma toString_loop_code_of:
  assumes "\<forall>c \<in> set cs. valid_card c"
  shows "toString_loop (code_of cs) strs = Some (Inr (strs @ rev (map card_str cs)))"
  using assms
proof (induction cs arbitrary: strs rule: rev_induct)
  case Nil
  show ?case by (subst toString_loop.simps) (simp add: code_of_Nil)
next
  case (snoc c cs)
  then have valid: "\<forall>c \<in> set cs. valid_card c" and c: "valid_card c" by simp_all
  note d = code_of_snoc_digits [OF valid c]
  have "toString_loop (code_of (cs @ [c])) strs = toString_loop (code_of cs) (strs @ [card_str c])"
    by (subst toString_loop.simps) (simp add: d toStringSingle_valid(1) [OF c])
  then show ?case by (simp add: snoc.IH [OF valid])
qed

lemma toString_code_of:
  assumes "\<forall>c \<in> set cs. valid_card c"
  shows "toString (code_of cs) = Some (Inr (concat (map card_str cs)))"
  by (simp add: toString_def toString_loop_code_of [OF assms] rev_map [symmetric])

lemma cards_loop_code_of:
  assumes "\<forall>c \<in> set cs. valid_card c"
  shows "cards_loop (code_of cs) allCards = Some (allCards @ rev cs)"
  using assms
proof (induction cs arbitrary: allCards rule: rev_induct)
  case Nil
  show ?case by (subst cards_loop.simps) (simp add: code_of_Nil)
next
  case (snoc c cs)
  then have valid: "\<forall>c \<in> set cs. valid_card c" and c: "valid_card c" by simp_all
  note d = code_of_snoc_digits [OF valid c]
  have "cards_loop (code_of (cs @ [c])) allCards = cards_loop (code_of cs) (allCards @ [c])"
    by (subst cards_loop.simps) (simp add: d)
  then show ?case by (simp add: snoc.IH [OF valid])
qed

text \<open>The digit loop of \<^verbatim>\<open>evalHand\<close> returns on every number that is not negative.\<close>

lemma cards_loop_returns:
  assumes "0 \<le> n"
  shows "\<exists>cs. cards_loop n allCards = Some (allCards @ cs) \<and> (\<forall>c \<in> set cs. 0 \<le> c \<and> c \<le> 52)"
  using assms
proof (induction "nat n" arbitrary: n allCards rule: less_induct)
  case less
  show ?case
  proof (cases "n = 0")
    case True
    then show ?thesis by (subst cards_loop.simps) simp
  next
    case False
    with less.prems have pos: "0 < n" by simp
    then have "nat (n div 53) < nat n" "0 \<le> n div 53"
      by (simp_all add: pos_imp_zdiv_nonneg_iff nat_less_iff zdiv_mono_strict int_div_less_self)
    from less.hyps [OF this, of "allCards @ [js_rem n 53]"] obtain cs where
      cs: "cards_loop (n div 53) (allCards @ [js_rem n 53]) = Some (allCards @ js_rem n 53 # cs)"
        "\<forall>c \<in> set cs. 0 \<le> c \<and> c \<le> 52"
      by auto
    have "cards_loop n allCards = cards_loop (n div 53) (allCards @ [js_rem n 53])"
      using False by (subst cards_loop.simps) simp
    moreover have "0 \<le> js_rem n 53 \<and> js_rem n 53 \<le> 52"
      using pos by (simp add: js_rem_def) 
    ultimately show ?thesis using cs by auto
  qed
qed

text \<open>
  C5: for a string made of one to seven valid cards, \<^verbatim>\<open>fromString\<close> returns a code \<open>n\<close>
  (below \<open>53 ^ 7\<close>), \<^verbatim>\<open>toString\<close> returns on \<open>n\<close>, with the string itself, and
  \<^verbatim>\<open>fromString\<close> of that result is \<open>n\<close> again.
\<close>

theorem sequence_roundtrip:
  assumes "1 \<le> length ss" and "length ss \<le> 7" and "\<forall>s \<in> set ss. valid_card_string s"
  shows "\<exists>n t. fromString (concat ss) = Inr n \<and> 0 < n \<and> n < 53 ^ 7 \<and>
    toString n = Some (Inr t) \<and> t = concat ss \<and> fromString t = Inr n"
proof -
  let ?cs = "map card_num ss"
  have valid: "\<forall>c \<in> set ?cs. valid_card c"
    using assms(3) by (simp add: fromStringSingle_valid(2))
  have "map card_str ?cs = ss"
    using assms(3) by (simp add: map_idI fromStringSingle_valid(3))
  then have encoded: "toString (code_of ?cs) = Some (Inr (concat ss))"
    using toString_code_of [OF valid] by simp
  from assms(1) obtain ss' s where "ss = ss' @ [s]" by (cases ss rule: rev_cases) auto
  then have "code_of ?cs \<noteq> 0"
    using valid code_of_snoc_digits(1) [of "map card_num ss'" "card_num s"] by simp
  with code_of_bounds [OF valid] have pos: "0 < code_of ?cs" by simp
  have "(53 :: int) ^ length ss \<le> 53 ^ 7"
    using assms(2) by (intro power_increasing) simp_all
  with code_of_bounds [OF valid] have less: "code_of ?cs < 53 ^ 7" by simp
  from fromString_concat [OF assms(3)] encoded pos less show ?thesis by blast
qed

theorem sequence_roundtrip_witness:
  "1 \<le> length [''sA'', ''cA'', ''dA'', ''sK'', ''hK''] \<and>
   length [''sA'', ''cA'', ''dA'', ''sK'', ''hK''] \<le> 7 \<and>
   list_all valid_card_string [''sA'', ''cA'', ''dA'', ''sK'', ''hK''] \<and>
   fromString ''sAcAdAsKhK'' = Inr 394520863 \<and>
   toString 394520863 = Some (Inr ''sAcAdAsKhK'')"
proof -
  have h1: "1 \<le> length [''sA'', ''cA'', ''dA'', ''sK'', ''hK'']" by simp
  have h2: "length [''sA'', ''cA'', ''dA'', ''sK'', ''hK''] \<le> 7" by simp
  have h3: "\<forall>s \<in> set [''sA'', ''cA'', ''dA'', ''sK'', ''hK'']. valid_card_string s"
    by code_simp
  have l: "list_all valid_card_string [''sA'', ''cA'', ''dA'', ''sK'', ''hK'']" using h3 by (simp only: list_all_iff)
  have e: "fromString ''sAcAdAsKhK'' = Inr 394520863" by code_simp
  from sequence_roundtrip [OF h1 h2 h3] obtain n t where
    "fromString (concat [''sA'', ''cA'', ''dA'', ''sK'', ''hK'']) = Inr n"
    "toString n = Some (Inr t)" "t = concat [''sA'', ''cA'', ''dA'', ''sK'', ''hK'']"
    by blast
  with e have "toString 394520863 = Some (Inr ''sAcAdAsKhK'')" by simp
  with h1 h2 l e show ?thesis by blast
qed

subsection \<open>Six and seven cards\<close>

lemma better_simps:
  "better None b = b" "better (Some h) b = min h b"
  by (simp_all add: better_def min_def)

lemma fold_better_Min:
  "fold better vs b = Min (insert b {v. Some v \<in> set vs})"
proof (induction vs arbitrary: b)
  case Nil
  show ?case by simp
next
  case (Cons x vs)
  have fin: "finite {v. Some v \<in> set vs}"
    by (rule finite_subset [of _ "the ` set vs"]) force+
  show ?case
  proof (cases x)
    case None
    then show ?thesis by (simp add: Cons.IH better_simps)
  next
    case (Some h)
    have "{v. Some v \<in> set (x # vs)} = insert h {v. Some v \<in> set vs}"
      using Some by auto
    moreover have "Min (insert (min h b) {v. Some v \<in> set vs})
        = Min (insert b (insert h {v. Some v \<in> set vs}))"
      using fin by (cases "{v. Some v \<in> set vs} = {}") (simp_all add: min.commute min.left_commute min.assoc)
    ultimately show ?thesis using Some by (simp add: Cons.IH better_simps)
  qed
qed

lemma fold_better_map:
  "fold (\<lambda>i bestHand. better (h i) bestHand) is b = fold better (map h is) b"
  by (simp add: fold_map comp_def)

lemma scores_eq: "{v. Some v \<in> set (map f xs)} = {v. \<exists>x \<in> set xs. f x = Some v}"
  by (auto simp add: image_iff) metis

lemma best_of_6_Min:
  "best_of_6 T cs =
     Min (insert 9999 {v. \<exists>ys \<in> set (map (omit_one cs) [0 ..< 6]). eval5Cards T ys = Some v})"
proof -
  have "best_of_6 T cs = fold better (map (\<lambda>i. eval5Cards T (omit_one cs i)) [0 ..< 6]) 9999"
    unfolding best_of_6_def by (rule fold_better_map)
  also have "\<dots> = fold better (map (eval5Cards T) (map (omit_one cs) [0 ..< 6])) 9999"
    by (simp only: map_map comp_def)
  finally show ?thesis by (simp only: fold_better_Min scores_eq)
qed

lemma fold_fold_concat:
  "fold (\<lambda>i b. fold (F i) (js i) b) is b = fold (\<lambda>(i, j). F i j) (concat (map (\<lambda>i. map (Pair i) (js i)) is)) b"
  by (induction "is" arbitrary: b) (simp_all add: fold_map comp_def)

lemma best_of_7_Min:
  "best_of_7 T cs =
     Min (insert 9999 {v. \<exists>ys \<in> set (map (\<lambda>(i, j). omit_two cs i j) pairs7). eval5Cards T ys = Some v})"
proof -
  have "best_of_7 T cs
      = fold (\<lambda>(i, j). better (eval5Cards T (omit_two cs i j))) pairs7 9999"
    unfolding best_of_7_def pairs7_def by (rule fold_fold_concat)
  also have "\<dots> = fold (\<lambda>p bestHand. better (eval5Cards T (case p of (i, j) \<Rightarrow> omit_two cs i j)) bestHand) pairs7 9999"
    by (simp only: case_prod_unfold)
  also have "\<dots> = fold better (map (\<lambda>p. eval5Cards T (case p of (i, j) \<Rightarrow> omit_two cs i j)) pairs7) 9999"
    by (rule fold_better_map)
  also have "\<dots> = fold better (map (eval5Cards T) (map (\<lambda>(i, j). omit_two cs i j) pairs7)) 9999"
    by (simp only: map_map comp_def)
  finally show ?thesis by (simp only: fold_better_Min scores_eq)
qed

lemma six_cards:
  assumes "length (cards :: int list) = 6"
  obtains a b c d e f where "cards = [a, b, c, d, e, f]"
proof -
  from assms obtain a t where 1: "cards = a # t" "length t = 5" by (cases cards) auto
  from 1(2) obtain b c d e f where "t = [b, c, d, e, f]" by (rule five_cards)
  with 1 have "cards = [a, b, c, d, e, f]" by simp
  then show thesis by (rule that)
qed

lemma seven_cards:
  assumes "length (cards :: int list) = 7"
  obtains a b c d e f g where "cards = [a, b, c, d, e, f, g]"
proof -
  from assms obtain a t where 1: "cards = a # t" "length t = 6" by (cases cards) auto
  from 1(2) obtain b c d e f g where "t = [b, c, d, e, f, g]" by (rule six_cards)
  with 1 have "cards = [a, b, c, d, e, f, g]" by simp
  then show thesis by (rule that)
qed

lemma upt_6: "[0 ..< 6] = [0, 1, 2, 3, 4, 5]"
  by (simp add: upt_rec)

lemma upt_7: "[0 ..< 7] = [0, 1, 2, 3, 4, 5, 6]"
  by (simp add: upt_rec)

lemma pairs7_eq:
  "pairs7 = [(0, 1), (0, 2), (0, 3), (0, 4), (0, 5), (0, 6), (1, 2), (1, 3), (1, 4), (1, 5),
     (1, 6), (2, 3), (2, 4), (2, 5), (2, 6), (3, 4), (3, 5), (3, 6), (4, 5), (4, 6), (5, 6)]"
  by (simp add: pairs7_def upt_rec)

lemma five_subsets_6:
  assumes "length cs = 6"
  shows "five_subsets cs = rev (map (omit_one cs) [0 ..< 6])"
proof -
  from assms obtain a b c d e f where cs: "cs = [a, b, c, d, e, f]" by (rule six_cards)
  show ?thesis
    unfolding cs five_subsets_def omit_one_def upt_6 by (simp add: Let_def)
qed

lemma five_subsets_7:
  assumes "length cs = 7"
  shows "five_subsets cs = rev (map (\<lambda>(i, j). omit_two cs i j) pairs7)"
proof -
  from assms obtain a b c d e f g where cs: "cs = [a, b, c, d, e, f, g]" by (rule seven_cards)
  show ?thesis
    unfolding cs five_subsets_def omit_two_def upt_7 pairs7_eq by (simp add: Let_def)
qed


lemma length_five_subsets: "ys \<in> set (five_subsets cs) \<Longrightarrow> length ys = 5"
  by (simp add: five_subsets_def)

lemma evalCards_Min:
  assumes "length cs = 6 \<or> length cs = 7"
  shows "evalCards T cs =
    Inr (Some (Min (insert 9999 {v. \<exists>ys \<in> set (five_subsets cs). eval5Cards T ys = Some v})))"
  using assms
proof
  assume 6: "length cs = 6"
  then show ?thesis
    by (simp add: evalCards_def best_of_6_Min five_subsets_6 [OF 6] del: set_map)
next
  assume 7: "length cs = 7"
  then show ?thesis
    by (simp add: evalCards_def best_of_7_Min five_subsets_7 [OF 7] del: set_map)
qed




subsection \<open>Order of the cards\<close>

lemma mset_subseqs:
  "ys \<in> set (subseqs xs) \<Longrightarrow> mset ys \<subseteq># mset xs"
proof (induction xs arbitrary: ys)
  case Nil
  then show ?case by simp
next
  case (Cons x xs)
  then consider zs where "ys = x # zs" "zs \<in> set (subseqs xs)" | "ys \<in> set (subseqs xs)"
    by (auto simp add: Let_def)
  then show ?case
  proof cases
    case 1
    with Cons.IH [of zs] show ?thesis by simp
  next
    case 2
    with Cons.IH [of ys] have "mset ys \<subseteq># mset xs" by simp
    also have "mset xs \<subseteq># mset (x # xs)" by simp
    finally show ?thesis .
  qed
qed

lemma subseqs_of_submultiset:
  "M \<subseteq># mset xs \<Longrightarrow> \<exists>ys \<in> set (subseqs xs). mset ys = M"
proof (induction xs arbitrary: M)
  case Nil
  then show ?case by simp
next
  case (Cons x xs)
  show ?case
  proof (cases "x \<in># M")
    case True
    then obtain N where M: "M = add_mset x N" by (meson multi_member_split)
    with Cons.prems have "N \<subseteq># mset xs" by simp
    from Cons.IH [OF this] obtain ys where "ys \<in> set (subseqs xs)" "mset ys = N" by blast
    then have "x # ys \<in> set (subseqs (x # xs))" "mset (x # ys) = M"
      using M by (simp_all add: Let_def)
    then show ?thesis by blast
  next
    case False
    have "M \<subseteq># mset xs"
    proof (rule mset_subset_eqI)
      fix a
      from Cons.prems have "count M a \<le> count (mset (x # xs)) a"
        by (rule mset_subset_eq_count)
      with False show "count M a \<le> count (mset xs) a"
        by (cases "a = x") (simp_all add: not_in_iff)
    qed
    from Cons.IH [OF this] obtain ys where "ys \<in> set (subseqs xs)" "mset ys = M" by blast
    then have "ys \<in> set (subseqs (x # xs))" by (simp add: Let_def)
    with \<open>mset ys = M\<close> show ?thesis by blast
  qed
qed

lemma five_subsets_mset:
  assumes "mset cs = mset cs'" and "ys \<in> set (five_subsets cs)"
  shows "\<exists>ys' \<in> set (five_subsets cs'). mset ys' = mset ys"
proof -
  from assms(2) have "ys \<in> set (subseqs cs)" and len: "length ys = 5"
    by (simp_all add: five_subsets_def)
  then have "mset ys \<subseteq># mset cs'" using mset_subseqs [of ys cs] assms(1) by simp
  from subseqs_of_submultiset [OF this] obtain ys' where
    ys': "ys' \<in> set (subseqs cs')" "mset ys' = mset ys" by blast
  from ys'(2) have "length ys' = length ys" by (rule mset_eq_length)
  with ys' len have "ys' \<in> set (five_subsets cs')" by (simp add: five_subsets_def)
  with ys'(2) show ?thesis by blast
qed

lemma or_rank_commute: "or_rank x \<circ> or_rank y = or_rank y \<circ> or_rank x"
  by (rule ext) (simp add: or_rank_def ac_simps)

lemma times_prime_commute: "times_prime T x \<circ> times_prime T y = times_prime T y \<circ> times_prime T x"
  by (rule ext) (simp add: times_prime_def ac_simps split: option.splits)

lemma eval5Cards_folds:
  assumes "length cs = 5"
  shows "rankBits cs = fold or_rank cs 0"
    and "rank_product T cs = fold (times_prime T) cs (Some 1)"
    and "flush cs \<longleftrightarrow> (\<forall>x \<in> set cs. \<forall>y \<in> set cs. js_rem x 4 = js_rem y 4)"
proof -
  from assms obtain a b c d e where cs: "cs = [a, b, c, d, e]" by (rule five_cards)
  show "rankBits cs = fold or_rank cs 0"
    by (simp add: cs rankBits_def upt_5 or_rank_def)
  show "rank_product T cs = fold (times_prime T) cs (Some 1)"
    by (simp add: cs rank_product_def upt_5 times_prime_def)
  have "flush cs \<longleftrightarrow> (\<forall>x \<in> set cs. js_rem a 4 = js_rem x 4)"
    by (simp add: cs flush_def upt_1_5)
  also have "\<dots> \<longleftrightarrow> (\<forall>x \<in> set cs. \<forall>y \<in> set cs. js_rem x 4 = js_rem y 4)"
    by (rule all_equal_iff [symmetric]) (simp add: cs)
  finally show "flush cs \<longleftrightarrow> (\<forall>x \<in> set cs. \<forall>y \<in> set cs. js_rem x 4 = js_rem y 4)" .
qed

lemma eval5Cards_mset:
  assumes "length ys = 5" and "mset ys = mset zs"
  shows "eval5Cards T ys = eval5Cards T zs"
proof -
  from assms have len: "length zs = 5" using mset_eq_length [of ys zs] by simp
  have "fold or_rank ys = fold or_rank zs"
    using or_rank_commute assms(2) by (rule fold_multiset_equiv)
  then have 1: "rankBits ys = rankBits zs"
    by (simp add: eval5Cards_folds(1) assms(1) len)
  have "fold (times_prime T) ys = fold (times_prime T) zs"
    using times_prime_commute assms(2) by (rule fold_multiset_equiv)
  then have 2: "rank_product T ys = rank_product T zs"
    by (simp add: eval5Cards_folds(2) assms(1) len)
  from assms(2) have "set ys = set zs" by (rule mset_eq_setD)
  then have 3: "flush ys = flush zs"
    by (simp add: eval5Cards_folds(3) assms(1) len)
  show ?thesis by (simp only: eval5Cards_def 1 2 3)
qed

lemma scores_mset:
  assumes "mset cs = mset cs'"
  shows "{v. \<exists>ys \<in> set (five_subsets cs). eval5Cards T ys = Some v}
    \<subseteq> {v. \<exists>ys \<in> set (five_subsets cs'). eval5Cards T ys = Some v}"
proof
  fix v assume "v \<in> {v. \<exists>ys \<in> set (five_subsets cs). eval5Cards T ys = Some v}"
  then obtain ys where ys: "ys \<in> set (five_subsets cs)" "eval5Cards T ys = Some v" by blast
  from five_subsets_mset [OF assms ys(1)] obtain ys' where
    ys': "ys' \<in> set (five_subsets cs')" "mset ys' = mset ys" by blast
  from ys'(1) have "length ys' = 5" by (rule length_five_subsets)
  from eval5Cards_mset [OF this ys'(2)] ys(2) have "eval5Cards T ys' = Some v" by simp
  with ys'(1) show "v \<in> {v. \<exists>ys \<in> set (five_subsets cs'). eval5Cards T ys = Some v}" by blast
qed

lemma evalCards_mset:
  assumes "mset cs = mset cs'"
  shows "evalCards T cs = evalCards T cs'"
proof -
  from assms have len: "length cs = length cs'" by (rule mset_eq_length)
  consider "length cs = 5" | "length cs = 6 \<or> length cs = 7"
    | "length cs \<noteq> 5" "length cs \<noteq> 6" "length cs \<noteq> 7" by blast
  then show ?thesis
  proof cases
    case 1
    with len eval5Cards_mset [OF 1 assms] show ?thesis by (simp add: evalCards_def)
  next
    case 2
    with len have l2: "length cs' = 6 \<or> length cs' = 7" by simp
    have "{v. \<exists>ys \<in> set (five_subsets cs). eval5Cards T ys = Some v}
        = {v. \<exists>ys \<in> set (five_subsets cs'). eval5Cards T ys = Some v}"
      using scores_mset [OF assms] scores_mset [OF assms [symmetric]] by (rule subset_antisym)
    then show ?thesis by (simp only: evalCards_Min [OF 2] evalCards_Min [OF l2])
  next
    case 3
    with len show ?thesis by (simp add: evalCards_def)
  qed
qed

lemma arg_num_represents:
  assumes "represents a cs" and "\<forall>c \<in> set cs. valid_card c"
  shows "arg_num a = Inr (code_of cs)"
proof (cases a)
  case (Num n)
  with assms(1) show ?thesis by simp
next
  case (Str s)
  let ?ss = "map card_str cs"
  have valid: "\<forall>s \<in> set ?ss. valid_card_string s"
    using assms(2) by (simp add: toStringSingle_valid(2))
  have "map card_num ?ss = cs"
    using assms(2) by (simp add: map_idI toStringSingle_valid(3))
  with fromString_concat [OF valid] Str assms(1) show ?thesis by simp
qed

lemma push_cards_represents:
  assumes "represents a cs" and "\<forall>c \<in> set cs. valid_card c"
  shows "push_cards a allCards = Some (Inr (allCards @ rev cs))"
  by (simp add: push_cards_def arg_num_represents [OF assms] cards_loop_code_of [OF assms(2)])

lemma falsy_represents:
  assumes "represents_opt b cs" and "\<forall>c \<in> set cs. valid_card c" and "\<not> truthy b"
  shows "cs = []"
proof (rule ccontr)
  assume "cs \<noteq> []"
  then obtain cs' c where cs: "cs = cs' @ [c]" by (cases cs rule: rev_cases) auto
  with assms(2) have valid: "\<forall>c \<in> set cs'. valid_card c" and c: "valid_card c" by simp_all
  from assms(1) \<open>cs \<noteq> []\<close> obtain a where b: "b = Some a" and a: "represents a cs"
    by (cases b) auto
  show False
  proof (cases a)
    case (Num n)
    with a b assms(3) have "code_of cs = 0" by simp
    with code_of_snoc_digits(1) [OF valid c] cs show False by simp
  next
    case (Str s)
    with a b assms(3) have "concat (map card_str cs) = []" by simp
    then have "card_str c = []" by (simp add: cs)
    with length_valid_card_string [OF toStringSingle_valid(2) [OF c]] show False by simp
  qed
qed

lemma allCards_of_represents:
  assumes "represents a xs" and "represents_opt b ys"
    and "\<forall>c \<in> set (xs @ ys). valid_card c"
  shows "allCards_of a b = Some (Inr (rev xs @ rev ys))"
proof -
  from assms(3) have vx: "\<forall>c \<in> set xs. valid_card c" and vy: "\<forall>c \<in> set ys. valid_card c"
    by simp_all
  have first: "push_cards a [] = Some (Inr (rev xs))"
    using push_cards_represents [OF assms(1) vx, of "[]"] by simp
  show ?thesis
  proof (cases "truthy b")
    case True
    then obtain a' where b: "b = Some a'" by (cases b) auto
    with assms(2) have "represents a' ys" by simp
    from push_cards_represents [OF this vy] first True b show ?thesis
      by (simp add: allCards_of_def)
  next
    case False
    from falsy_represents [OF assms(2) vy False] first False show ?thesis
      by (simp add: allCards_of_def)
  qed
qed

text \<open>
  C9: two pairs of arguments (card strings or composite codes, the second one possibly
  missing) that stand for the same multiset of five to seven valid cards, in any order and
  with any split, give the same result of \<^verbatim>\<open>evalHand\<close>, and \<^verbatim>\<open>evalHand\<close> returns on them.
\<close>

theorem evalHand_permutation_invariant:
  assumes "represents a1 xs1" and "represents_opt a2 xs2"
    and "represents b1 ys1" and "represents_opt b2 ys2"
    and "mset (xs1 @ xs2) = mset (ys1 @ ys2)"
    and "\<forall>c \<in> set (xs1 @ xs2). valid_card c"
    and "5 \<le> length (xs1 @ xs2)" and "length (xs1 @ xs2) \<le> 7"
  shows "evalHand T a1 a2 = evalHand T b1 b2 \<and> (\<exists>r. evalHand T a1 a2 = Some (Inr r))"
proof -
  from assms(5) have "set (xs1 @ xs2) = set (ys1 @ ys2)" by (rule mset_eq_setD)
  with assms(6) have valid: "\<forall>c \<in> set (ys1 @ ys2). valid_card c" by simp
  have a: "evalHand T a1 a2 = Some (evalCards T (rev xs1 @ rev xs2))"
    by (simp add: evalHand_def allCards_of_represents [OF assms(1,2,6)])
  have b: "evalHand T b1 b2 = Some (evalCards T (rev ys1 @ rev ys2))"
    by (simp add: evalHand_def allCards_of_represents [OF assms(3,4) valid])
  have "mset (rev xs1 @ rev xs2) = mset (rev ys1 @ rev ys2)"
    using assms(5) by simp
  then have same: "evalCards T (rev xs1 @ rev xs2) = evalCards T (rev ys1 @ rev ys2)"
    by (rule evalCards_mset)
  have "length (rev xs1 @ rev xs2) \<in> {5, 6, 7}"
    using assms(7,8) by auto
  then have "\<exists>r. evalCards T (rev xs1 @ rev xs2) = Inr r"
    by (auto simp add: evalCards_def)
  with a b same show ?thesis by auto
qed

theorem evalHand_permutation_invariant_witness:
  "represents (Str ''sAsK'') [49, 45] \<and> represents_opt (Some (Str ''sQsJsT'')) [41, 37, 33] \<and>
   represents (Num 5019092) [33, 37, 41, 45] \<and> represents_opt (Some (Num 49)) [49] \<and>
   mset ([49, 45] @ [41, 37, 33]) = mset ([33, 37, 41, 45] @ [49 :: int]) \<and>
   list_all valid_card ([49, 45] @ [41, 37, 33]) \<and>
   5 \<le> length ([49, 45] @ [41, 37, 33 :: int]) \<and> length ([49, 45] @ [41, 37, 33 :: int]) \<le> 7 \<and>
   evalHand sample_tables (Str ''sAsK'') (Some (Str ''sQsJsT'')) = Some (Inr (Some 1)) \<and>
   evalHand sample_tables (Num 5019092) (Some (Num 49)) = Some (Inr (Some 1))"
proof -
  have h1: "represents (Str ''sAsK'') [49, 45]" by code_simp
  have h2: "represents_opt (Some (Str ''sQsJsT'')) [41, 37, 33]" by code_simp
  have h3: "represents (Num 5019092) [33, 37, 41, 45]" by code_simp
  have h4: "represents_opt (Some (Num 49)) [49]" by code_simp
  have h5: "mset ([49, 45] @ [41, 37, 33]) = mset ([33, 37, 41, 45] @ [49 :: int])" by simp
  have h6: "\<forall>c \<in> set ([49, 45] @ [41, 37, 33]). valid_card c" by (simp add: valid_card_def)
  have l: "list_all valid_card ([49, 45] @ [41, 37, 33])" using h6 by (simp only: list_all_iff)
  have h7: "5 \<le> length ([49, 45] @ [41, 37, 33 :: int])" by simp
  have h8: "length ([49, 45] @ [41, 37, 33 :: int]) \<le> 7" by simp
  have e: "evalHand sample_tables (Str ''sAsK'') (Some (Str ''sQsJsT'')) = Some (Inr (Some 1))"
    by code_simp
  from evalHand_permutation_invariant [OF h1 h2 h3 h4 h5 h6 h7 h8, of sample_tables] e
  have "evalHand sample_tables (Num 5019092) (Some (Num 49)) = Some (Inr (Some 1))" by simp
  with h1 h2 h3 h4 h5 l h7 h8 e show ?thesis by blast
qed

end
